theory Spec2Isabelle
  imports Main "HOL-Library.Word"
begin

unbundle bit_operations_syntax

section \<open>Data model of scope.go\<close>

text \<open>
  Go's \<^verbatim>\<open>uint32\<close> is a 32-bit word: addition wraps around. The structs hold pointers to
  each other (\<^verbatim>\<open>*host\<close>, \<^verbatim>\<open>*user\<close>, ...); a pointer is a reference into a typed heap, and
  every reference is taken to point to a live object (no nil pointer).
\<close>

type_synonym u32 = "32 word"
type_synonym ref = nat

text \<open>\<^verbatim>\<open>type queryCounter struct { value uint32 }\<close>. The structs that embed it extend it.\<close>

record queryCounter =
  value' :: u32

record user = queryCounter +
  toUser :: string
  toCluster :: string
  allowedNetworks :: "string list"
  name :: string
  password :: string
  maxExecutionTime :: int
  maxConcurrentQueries :: u32

record clusterUser = queryCounter +
  name :: string
  password :: string
  maxExecutionTime :: int
  maxConcurrentQueries :: u32

text \<open>\<open>addr\<close> is the node's URL as \<^verbatim>\<open>host.addr.String()\<close> renders it.\<close>

record host = queryCounter +
  addr :: string

record cluster =
  nextIdx :: u32
  hosts :: "ref list"
  users :: "string \<rightharpoonup> ref"
  killQueryUserName :: string
  killQueryUserPassword :: string

record scope =
  id' :: u32
  host :: ref
  cluster :: ref
  user :: ref
  clusterUser :: ref

text \<open>
  The heap: the package variable \<^verbatim>\<open>scopeId\<close> and the objects of each struct type. Since the
  three counted structs are different types, the counter of a user, of a cluster user and of
  a host are always three different words. \<open>trace\<close> is a ghost field: every atomic add on a
  counter is appended to it, so that the order of the updates can be stated.
\<close>

datatype entity = User ref | ClusterUser ref | Host ref

datatype event = Inc entity | Dec entity

record heap =
  scopeId :: u32
  user_at :: "ref \<Rightarrow> user"
  clusterUser_at :: "ref \<Rightarrow> clusterUser"
  host_at :: "ref \<Rightarrow> host"
  cluster_at :: "ref \<Rightarrow> cluster"
  trace :: "event list"

section \<open>queryCounter\<close>

text \<open>\<^verbatim>\<open>atomic.LoadUint32(&qc.value)\<close>\<close>

definition runningQueries :: "'a queryCounter_scheme \<Rightarrow> u32" where
  "runningQueries qc = value' qc"

text \<open>\<^verbatim>\<open>atomic.AddUint32(&qc.value, 1)\<close>: returns the new value.\<close>

definition queryCounter_inc :: "'a queryCounter_scheme \<Rightarrow> u32 \<times> 'a queryCounter_scheme" where
  "queryCounter_inc qc = (let v = value' qc + 1 in (v, qc\<lparr>value' := v\<rparr>))"

text \<open>\<^verbatim>\<open>atomic.AddUint32(&qc.value, ^uint32(0))\<close>: adds \<open>0xFFFFFFFF\<close>.\<close>

definition queryCounter_dec :: "'a queryCounter_scheme \<Rightarrow> 'a queryCounter_scheme" where
  "queryCounter_dec qc = qc\<lparr>value' := value' qc + NOT 0\<rparr>"

text \<open>The promoted methods, called through a pointer: \<^verbatim>\<open>s.user.inc()\<close>, \<^verbatim>\<open>s.host.dec()\<close>, ...\<close>

definition user_inc :: "ref \<Rightarrow> heap \<Rightarrow> u32 \<times> heap" where
  "user_inc r h =
     (let (n, u) = queryCounter_inc (user_at h r)
      in (n, h\<lparr>user_at := (user_at h)(r := u), trace := trace h @ [Inc (User r)]\<rparr>))"

definition clusterUser_inc :: "ref \<Rightarrow> heap \<Rightarrow> u32 \<times> heap" where
  "clusterUser_inc r h =
     (let (n, cu) = queryCounter_inc (clusterUser_at h r)
      in (n, h\<lparr>clusterUser_at := (clusterUser_at h)(r := cu),
               trace := trace h @ [Inc (ClusterUser r)]\<rparr>))"

definition host_inc :: "ref \<Rightarrow> heap \<Rightarrow> u32 \<times> heap" where
  "host_inc r h =
     (let (n, hst) = queryCounter_inc (host_at h r)
      in (n, h\<lparr>host_at := (host_at h)(r := hst), trace := trace h @ [Inc (Host r)]\<rparr>))"

definition user_dec :: "ref \<Rightarrow> heap \<Rightarrow> heap" where
  "user_dec r h =
     h\<lparr>user_at := (user_at h)(r := queryCounter_dec (user_at h r)),
       trace := trace h @ [Dec (User r)]\<rparr>"

definition clusterUser_dec :: "ref \<Rightarrow> heap \<Rightarrow> heap" where
  "clusterUser_dec r h =
     h\<lparr>clusterUser_at := (clusterUser_at h)(r := queryCounter_dec (clusterUser_at h r)),
       trace := trace h @ [Dec (ClusterUser r)]\<rparr>"

definition host_dec :: "ref \<Rightarrow> heap \<Rightarrow> heap" where
  "host_dec r h =
     h\<lparr>host_at := (host_at h)(r := queryCounter_dec (host_at h r)),
       trace := trace h @ [Dec (Host r)]\<rparr>"

section \<open>scope.inc and scope.dec\<close>

text \<open>
  The two errors of \<^verbatim>\<open>scope.inc\<close>, with the arguments of their format strings:
  \<^verbatim>\<open>"limits for user %q are exceeded: maxConcurrentQueries limit: %d"\<close> and
  \<^verbatim>\<open>"limits for cluster user %q are exceeded: maxConcurrentQueries limit: %d"\<close>.
\<close>

datatype limit_error =
  UserLimitExceeded string u32
| ClusterUserLimitExceeded string u32

definition scope_dec :: "scope \<Rightarrow> heap \<Rightarrow> heap" where
  "scope_dec s h0 =
     (let h1 = host_dec (host s) h0;
          h2 = user_dec (user s) h1;
          h3 = clusterUser_dec (clusterUser s) h2
      in h3)"

definition scope_inc :: "scope \<Rightarrow> heap \<Rightarrow> limit_error option \<times> heap" where
  "scope_inc s h0 =
     (let (uq, h1) = user_inc (user s) h0;
          (cq, h2) = clusterUser_inc (clusterUser s) h1;
          (hq, h3) = host_inc (host s) h2;
          u = user_at h3 (user s);
          cu = clusterUser_at h3 (clusterUser s);
          err = None;
          err = (if user.maxConcurrentQueries u > 0 \<and> uq > user.maxConcurrentQueries u
                 then Some (UserLimitExceeded (user.name u) (user.maxConcurrentQueries u))
                 else err);
          err = (if clusterUser.maxConcurrentQueries cu > 0
                      \<and> cq > clusterUser.maxConcurrentQueries cu
                 then Some (ClusterUserLimitExceeded (clusterUser.name cu)
                              (clusterUser.maxConcurrentQueries cu))
                 else err)
      in if err \<noteq> None then (err, scope_dec s h3) else (None, h3))"

section \<open>cluster.getHost\<close>

datatype panic = DivideByZero | IndexOutOfRange

text \<open>
  The loop of \<^verbatim>\<open>getHost\<close>:
  \<^verbatim>\<open>for i := (idx + 1) % l; i != idx; i = (i + 1) % l { ... }\<close> followed by
  \<^verbatim>\<open>return idle\<close>. Nothing in the loop itself bounds the number of iterations, so the
  result is an option and \<open>None\<close> stands for a loop that never ends.
\<close>

partial_function (option) scan ::
  "heap \<Rightarrow> ref list \<Rightarrow> u32 \<Rightarrow> u32 \<Rightarrow> u32 \<Rightarrow> ref \<Rightarrow> u32 \<Rightarrow> (panic + ref) option" where
  "scan h hs l idx i idle idleN =
     (if i \<noteq> idx then
        (if unat i < length hs then
           (let hh = hs ! unat i;
                n = runningQueries (host_at h hh)
            in if n = 0 then Some (Inr hh)
               else if l = 0 then Some (Inl DivideByZero)
               else if n < idleN then scan h hs l idx ((i + 1) mod l) hh n
               else scan h hs l idx ((i + 1) mod l) idle idleN)
         else Some (Inl IndexOutOfRange))
      else Some (Inr idle))"

definition getHost :: "ref \<Rightarrow> heap \<Rightarrow> (panic + ref \<times> heap) option" where
  "getHost c h0 =
     (let idx = nextIdx (cluster_at h0 c) + 1;
          h = h0\<lparr>cluster_at := (cluster_at h0)(c := (cluster_at h0 c)\<lparr>nextIdx := idx\<rparr>)\<rparr>;
          hs = hosts (cluster_at h c);
          l = (of_nat (length hs) :: u32)
      in if l = 0 then Some (Inl DivideByZero)
         else
           (let idx = idx mod l
            in if unat idx < length hs then
                 (let idle = hs ! unat idx;
                      idleN = runningQueries (host_at h idle)
                  in if idleN = 0 then Some (Inr (idle, h))
                     else
                       (case scan h hs l idx ((idx + 1) mod l) idle idleN of
                          None \<Rightarrow> None
                        | Some (Inl p) \<Rightarrow> Some (Inl p)
                        | Some (Inr r) \<Rightarrow> Some (Inr (r, h))))
               else Some (Inl IndexOutOfRange)))"

section \<open>newScope, and the admission of a request\<close>

text \<open>
  The fields of the composite literal are evaluated in order: \<^verbatim>\<open>scopeId\<close> is advanced
  first, then \<^verbatim>\<open>c.getHost()\<close> runs.
\<close>

definition newScope :: "ref \<Rightarrow> ref \<Rightarrow> ref \<Rightarrow> heap \<Rightarrow> (panic + scope \<times> heap) option" where
  "newScope u cu c h0 =
     (let i = scopeId h0 + 1;
          h1 = h0\<lparr>scopeId := i\<rparr>
      in case getHost c h1 of
           None \<Rightarrow> None
         | Some (Inl p) \<Rightarrow> Some (Inl p)
         | Some (Inr (hst, h2)) \<Rightarrow>
             Some (Inr (\<lparr>id' = i, host = hst, cluster = c, user = u, clusterUser = cu\<rparr>, h2)))"

text \<open>
  The request handler admits a request by \<^verbatim>\<open>s := newScope(u, cu, c)\<close> followed by
  \<^verbatim>\<open>s.inc()\<close>, and releases it by \<^verbatim>\<open>s.dec()\<close>. \<open>admit\<close> is that pair of calls.
\<close>

definition admit ::
  "ref \<Rightarrow> ref \<Rightarrow> ref \<Rightarrow> heap \<Rightarrow> (panic + limit_error option \<times> scope \<times> heap) option" where
  "admit u cu c h0 =
     (case newScope u cu c h0 of
        None \<Rightarrow> None
      | Some (Inl p) \<Rightarrow> Some (Inl p)
      | Some (Inr (s, h1)) \<Rightarrow>
          (let (err, h2) = scope_inc s h1 in Some (Inr (err, s, h2))))"

definition release :: "scope \<Rightarrow> heap \<Rightarrow> heap" where
  "release s h = scope_dec s h"

section \<open>cluster.killQueries\<close>

text \<open>
  A \<^verbatim>\<open>float64\<close>: the finite value \<open>m * 2 ^ e\<close>, an infinity or a NaN.
\<close>

datatype float64 = Finite int int | PosInf | NegInf | NaN

text \<open>
  The fields of \<^verbatim>\<open>http.Request\<close> and \<^verbatim>\<open>http.Response\<close> that \<^verbatim>\<open>killQueries\<close> sets or reads.
\<close>

record request =
  req_method :: string
  req_url :: string
  req_body :: string
  req_auth :: "(string \<times> string) option"

record response =
  StatusCode :: int
  Body :: string

text \<open>
  What \<^verbatim>\<open>killQueries\<close> takes from the Go runtime and from \<^verbatim>\<open>net/http\<close>, as parameters:
  the value of \<^verbatim>\<open>int(f)\<close> where the truncated \<^verbatim>\<open>f\<close> is no \<^verbatim>\<open>int\<close> (the language leaves it
  to the implementation), whether \<^verbatim>\<open>http.NewRequest\<close> rejects a method and URL (and with
  which error), and the answer of \<^verbatim>\<open>client.Do\<close> to a request, which may depend on the
  requests sent before it.
\<close>

record env =
  int_of_unrepresentable :: "float64 \<Rightarrow> int"
  newRequest_error :: "string \<Rightarrow> string \<Rightarrow> string option"
  client_do :: "request list \<Rightarrow> request \<Rightarrow> string + response"

text \<open>\<^verbatim>\<open>int(elapsed)\<close>: truncation towards zero, for a 64-bit \<^verbatim>\<open>int\<close>.\<close>

definition float64_to_int :: "env \<Rightarrow> float64 \<Rightarrow> int" where
  "float64_to_int E f =
     (case f of
        Finite m e \<Rightarrow>
          (let t = (if 0 \<le> e then m * 2 ^ nat e else sgn m * (\<bar>m\<bar> div 2 ^ nat (- e)))
           in if - (2 ^ 63) \<le> t \<and> t < 2 ^ 63 then t else int_of_unrepresentable E f)
      | _ \<Rightarrow> int_of_unrepresentable E f)"

text \<open>The verb \<^verbatim>\<open>%d\<close> of \<^verbatim>\<open>fmt.Sprintf\<close>: the decimal digits, after a minus sign if negative.\<close>

definition digit_char :: "nat \<Rightarrow> char" where
  "digit_char n = ''0123456789'' ! (n mod 10)"

function show_nat :: "nat \<Rightarrow> string" where
  "show_nat n = (if n < 10 then [digit_char n] else show_nat (n div 10) @ [digit_char (n mod 10)])"
  by pat_completeness auto
termination
  by (relation "measure id") auto

declare show_nat.simps [simp del]

definition show_int :: "int \<Rightarrow> string" where
  "show_int i = (if i < 0 then CHR ''-'' # show_nat (nat (- i)) else show_nat (nat i))"

text \<open>
  The three errors of \<^verbatim>\<open>killQueries\<close>, with the arguments of their format strings:
  \<^verbatim>\<open>"error while creating kill query request to %s: %s"\<close> (addr, err),
  \<^verbatim>\<open>"error while executing clickhouse query %q at %q: %s"\<close> (query, addr, err) and
  \<^verbatim>\<open>"unexpected status code returned from query %q at %q: %d. Response body: %q"\<close>
  (query, addr, status code, response body).
\<close>

datatype kill_error =
  CreateRequestError string string
| ExecuteError string string string
| StatusError string string int string

text \<open>\<^verbatim>\<open>http.NewRequest(method, url, body)\<close>\<close>

definition NewRequest :: "env \<Rightarrow> string \<Rightarrow> string \<Rightarrow> string \<Rightarrow> string + request" where
  "NewRequest E m u b =
     (case newRequest_error E m u of
        Some err \<Rightarrow> Inl err
      | None \<Rightarrow> Inr \<lparr>req_method = m, req_url = u, req_body = b, req_auth = None\<rparr>)"

text \<open>
  Modelled from the spec: \<^verbatim>\<open>setAuth\<close> is defined in another file of the repository. The spec
  (4.4) says the statement is issued as an authenticated request: the credentials are
  attached to the request, which is otherwise unchanged.
\<close>

definition setAuth :: "request \<Rightarrow> string \<Rightarrow> string \<Rightarrow> request" where
  "setAuth req u p = req\<lparr>req_auth := Some (u, p)\<rparr>"

text \<open>
  The loop \<^verbatim>\<open>for _, host := range c.hosts\<close>. \<open>sent\<close> is a ghost argument: the requests
  handed to \<^verbatim>\<open>client.Do\<close> so far, in order. (Closing the response body has no counterpart.)
\<close>

fun kill_loop ::
  "env \<Rightarrow> heap \<Rightarrow> string \<Rightarrow> string \<Rightarrow> string \<Rightarrow> ref list \<Rightarrow> request list
     \<Rightarrow> kill_error option \<times> request list" where
  "kill_loop E h query u p [] sent = (None, sent)"
| "kill_loop E h query u p (hst # hs) sent =
     (let a = addr (host_at h hst)
      in case NewRequest E ''POST'' a query of
           Inl err \<Rightarrow> (Some (CreateRequestError a err), sent)
         | Inr req \<Rightarrow>
             (let req = setAuth req u p;
                  sent' = sent @ [req]
              in case client_do E sent req of
                   Inl err \<Rightarrow> (Some (ExecuteError query a err), sent')
                 | Inr resp \<Rightarrow>
                     if StatusCode resp \<noteq> 200
                     then (Some (StatusError query a (StatusCode resp) (Body resp)), sent')
                     else kill_loop E h query u p hs sent'))"

text \<open>
  \<^verbatim>\<open>func (c *cluster) killQueries(ua string, elapsed float64) error\<close>. The call of
  \<^verbatim>\<open>log.Debugf\<close> only writes to the debug log and is left out.
\<close>

definition killQueries ::
  "env \<Rightarrow> ref \<Rightarrow> string \<Rightarrow> float64 \<Rightarrow> heap \<Rightarrow> request list
     \<Rightarrow> kill_error option \<times> request list" where
  "killQueries E c ua elapsed h sent =
     (let cl = cluster_at h c
      in if length (killQueryUserName cl) = 0 then (None, sent)
         else
           (let query = ''KILL QUERY WHERE http_user_agent = '' @ [CHR 0x27] @ ua @ [CHR 0x27]
                          @ '' AND elapsed >= '' @ show_int (float64_to_int E elapsed)
            in kill_loop E h query (killQueryUserName cl) (killQueryUserPassword cl)
                 (hosts cl) sent))"

section \<open>Notions used to state the properties\<close>

text \<open>
  The ceiling test of \<^verbatim>\<open>scope.inc\<close> for the user and for the cluster user, on the heap
  before the call: the ceiling is enabled and the count after the increment exceeds it.
\<close>

definition user_exceeded :: "heap \<Rightarrow> ref \<Rightarrow> bool" where
  "user_exceeded h u =
     (user.maxConcurrentQueries (user_at h u) > 0
      \<and> value' (user_at h u) + 1 > user.maxConcurrentQueries (user_at h u))"

definition clusterUser_exceeded :: "heap \<Rightarrow> ref \<Rightarrow> bool" where
  "clusterUser_exceeded h cu =
     (clusterUser.maxConcurrentQueries (clusterUser_at h cu) > 0
      \<and> value' (clusterUser_at h cu) + 1 > clusterUser.maxConcurrentQueries (clusterUser_at h cu))"

text \<open>The counter updates made between two heaps, and the order of two events in a list.\<close>

definition new_events :: "heap \<Rightarrow> heap \<Rightarrow> event list" where
  "new_events h h' = drop (length (trace h)) (trace h')"

definition precedes :: "'a \<Rightarrow> 'a \<Rightarrow> 'a list \<Rightarrow> bool" where
  "precedes a b xs = (\<exists>i j. i < j \<and> j < length xs \<and> xs ! i = a \<and> xs ! j = b)"

definition admit_events :: "ref \<Rightarrow> ref \<Rightarrow> ref \<Rightarrow> heap \<Rightarrow> event list option" where
  "admit_events u cu c h =
     (case admit u cu c h of
        Some (Inr (err, s, h')) \<Rightarrow> Some (new_events h h')
      | _ \<Rightarrow> None)"

text \<open>
  The load of a node, the heap after \<^verbatim>\<open>atomic.AddUint32(&c.nextIdx, 1)\<close>, the index
  \<^verbatim>\<open>idx % l\<close> where the scan starts, and the nodes in the order \<^verbatim>\<open>getHost\<close> reads them:
  the start node first, then increasing indices with wrap-around.
\<close>

definition load :: "heap \<Rightarrow> ref \<Rightarrow> u32" where
  "load h r = runningQueries (host_at h r)"

definition advance :: "ref \<Rightarrow> heap \<Rightarrow> heap" where
  "advance c h =
     h\<lparr>cluster_at := (cluster_at h)(c := (cluster_at h c)\<lparr>nextIdx := nextIdx (cluster_at h c) + 1\<rparr>)\<rparr>"

definition start_index :: "cluster \<Rightarrow> nat" where
  "start_index cl = unat ((nextIdx cl + 1) mod of_nat (length (hosts cl)))"

definition scan_order :: "cluster \<Rightarrow> ref list" where
  "scan_order cl = rotate (start_index cl) (hosts cl)"

text \<open>
  The selection of \<^verbatim>\<open>getHost\<close> written over the list of nodes in scan order: \<open>scan_list\<close>
  is the loop over the nodes after the start node, \<open>select\<close> the fast path followed by
  the loop. \<open>getHost\<close> is shown to compute \<open>select\<close> (lemma \<open>getHost_eq\<close>).
\<close>

fun scan_list :: "(ref \<Rightarrow> u32) \<Rightarrow> ref list \<Rightarrow> ref \<Rightarrow> u32 \<Rightarrow> ref" where
  "scan_list ld [] idle idleN = idle"
| "scan_list ld (x # xs) idle idleN =
     (if ld x = 0 then x
      else if ld x < idleN then scan_list ld xs x (ld x)
      else scan_list ld xs idle idleN)"

definition select :: "(ref \<Rightarrow> u32) \<Rightarrow> ref list \<Rightarrow> ref" where
  "select ld xs = (if ld (hd xs) = 0 then hd xs else scan_list ld (tl xs) (hd xs) (ld (hd xs)))"

text \<open>\<open>n\<close> successive calls of \<^verbatim>\<open>getHost\<close> on a cluster, and the nodes they return.\<close>

fun getHosts :: "nat \<Rightarrow> ref \<Rightarrow> heap \<Rightarrow> (panic + ref list \<times> heap) option" where
  "getHosts 0 c h = Some (Inr ([], h))"
| "getHosts (Suc n) c h =
     (case getHost c h of
        None \<Rightarrow> None
      | Some (Inl p) \<Rightarrow> Some (Inl p)
      | Some (Inr (r, h1)) \<Rightarrow>
          (case getHosts n c h1 of
             None \<Rightarrow> None
           | Some (Inl p) \<Rightarrow> Some (Inl p)
           | Some (Inr (rs, h2)) \<Rightarrow> Some (Inr (r # rs, h2))))"

definition selected_nodes :: "nat \<Rightarrow> ref \<Rightarrow> heap \<Rightarrow> ref list option" where
  "selected_nodes n c h =
     (case getHosts n c h of Some (Inr (rs, h')) \<Rightarrow> Some rs | _ \<Rightarrow> None)"

text \<open>
  For \<^verbatim>\<open>killQueries\<close>: the statement, the request that carries it to the node at an
  address, the outcome of the exchange with one node (given the requests sent before), the
  node an error refers to, and the addresses of the nodes of a cluster in cluster order.
\<close>

definition kill_statement :: "env \<Rightarrow> string \<Rightarrow> float64 \<Rightarrow> string" where
  "kill_statement E ua elapsed =
     ''KILL QUERY WHERE http_user_agent = '' @ [CHR 0x27] @ ua @ [CHR 0x27]
       @ '' AND elapsed >= '' @ show_int (float64_to_int E elapsed)"

definition kill_request :: "string \<Rightarrow> string \<Rightarrow> string \<Rightarrow> string \<Rightarrow> request" where
  "kill_request query u p a =
     \<lparr>req_method = ''POST'', req_url = a, req_body = query, req_auth = Some (u, p)\<rparr>"

definition node_outcome ::
  "env \<Rightarrow> string \<Rightarrow> string \<Rightarrow> string \<Rightarrow> string \<Rightarrow> request list \<Rightarrow> kill_error option" where
  "node_outcome E query u p a sent =
     (case newRequest_error E ''POST'' a of
        Some err \<Rightarrow> Some (CreateRequestError a err)
      | None \<Rightarrow>
          (case client_do E sent (kill_request query u p a) of
             Inl err \<Rightarrow> Some (ExecuteError query a err)
           | Inr resp \<Rightarrow>
               if StatusCode resp \<noteq> 200
               then Some (StatusError query a (StatusCode resp) (Body resp))
               else None))"

fun kill_error_addr :: "kill_error \<Rightarrow> string" where
  "kill_error_addr (CreateRequestError a err) = a"
| "kill_error_addr (ExecuteError q a err) = a"
| "kill_error_addr (StatusError q a code body) = a"

definition node_addrs :: "heap \<Rightarrow> ref \<Rightarrow> string list" where
  "node_addrs h c = map (\<lambda>r. addr (host_at h r)) (hosts (cluster_at h c))"

section \<open>Example states\<close>

text \<open>
  One user with ceiling 2 and \<open>n\<close> running queries, one cluster user without ceiling, a
  cluster of the three nodes 1, 2, 3 with cursor 4, node \<open>r\<close> running \<open>r\<close> queries.
\<close>

definition example_heap :: "u32 \<Rightarrow> heap" where
  "example_heap n =
     \<lparr>scopeId = 7,
      user_at = (\<lambda>r. \<lparr>value' = n, toUser = ''default'', toCluster = ''main'',
                         allowedNetworks = [], user.name = ''web'', user.password = ''pw'',
                         user.maxExecutionTime = 30, user.maxConcurrentQueries = 2\<rparr>),
      clusterUser_at = (\<lambda>r. \<lparr>value' = 5, clusterUser.name = ''default'',
                         clusterUser.password = [], clusterUser.maxExecutionTime = 0,
                         clusterUser.maxConcurrentQueries = 0\<rparr>),
      host_at = (\<lambda>r. \<lparr>value' = of_nat r, addr = ''http://node''\<rparr>),
      cluster_at = (\<lambda>r. \<lparr>nextIdx = 4, hosts = [1, 2, 3], users = Map.empty,
                         killQueryUserName = [], killQueryUserPassword = []\<rparr>),
      trace = []\<rparr>"

definition example_heap_with :: "u32 \<Rightarrow> ref list \<Rightarrow> heap" where
  "example_heap_with cur hs =
     (example_heap 0)\<lparr>cluster_at :=
        (\<lambda>r. \<lparr>nextIdx = cur, hosts = hs, users = Map.empty,
              killQueryUserName = [], killQueryUserPassword = []\<rparr>)\<rparr>"

text \<open>The same with every node idle.\<close>

definition idle_heap :: "u32 \<Rightarrow> ref list \<Rightarrow> heap" where
  "idle_heap cur hs =
     (example_heap_with cur hs)\<lparr>host_at := (\<lambda>r. \<lparr>value' = 0, addr = ''http://node''\<rparr>)\<rparr>"

text \<open>
  A transport that accepts every request and answers 200, except for the node at
  \<^verbatim>\<open>http://node2\<close>, which answers 500; and a cluster of three nodes \<^verbatim>\<open>http://node1\<close>,
  \<^verbatim>\<open>http://node2\<close>, \<^verbatim>\<open>http://node3\<close> whose administrative user is \<open>admin\<close>.
\<close>

definition example_env :: env where
  "example_env =
     \<lparr>int_of_unrepresentable = (\<lambda>f. - (2 ^ 63)),
      newRequest_error = (\<lambda>m u. None),
      client_do = (\<lambda>sent req. if req_url req = ''http://node2''
                                then Inr \<lparr>StatusCode = 500, Body = ''down''\<rparr>
                                else Inr \<lparr>StatusCode = 200, Body = []\<rparr>)\<rparr>"

definition kill_heap :: "string \<Rightarrow> heap" where
  "kill_heap admin =
     (example_heap 0)\<lparr>
        host_at := (\<lambda>r. \<lparr>value' = 0, addr = ''http://node'' @ [digit_char r]\<rparr>),
        cluster_at := (\<lambda>r. \<lparr>nextIdx = 0, hosts = [1, 2, 3], users = Map.empty,
                              killQueryUserName = admin, killQueryUserPassword = ''pw''\<rparr>)\<rparr>"

section \<open>Admission: scope.inc and scope.dec\<close>

lemma getHost_heap:
  assumes "getHost c h = Some (Inr (r, h'))"
  shows "h' = h\<lparr>cluster_at := (cluster_at h)(c := (cluster_at h c)\<lparr>nextIdx := nextIdx (cluster_at h c) + 1\<rparr>)\<rparr>"
  using assms
  by (auto simp: getHost_def Let_def split: if_splits option.splits sum.splits)

lemma newScope_result:
  assumes "newScope u cu c h = Some (Inr (s, h'))"
  shows "user s = u \<and> clusterUser s = cu \<and> cluster s = c \<and> id' s = scopeId h + 1
    \<and> user_at h' = user_at h \<and> clusterUser_at h' = clusterUser_at h
    \<and> host_at h' = host_at h \<and> trace h' = trace h"
  using assms
  by (auto simp: newScope_def Let_def split: option.splits sum.splits dest!: getHost_heap)

lemma scope_inc_err:
  "fst (scope_inc s h) =
     (if clusterUser_exceeded h (clusterUser s)
      then Some (ClusterUserLimitExceeded (clusterUser.name (clusterUser_at h (clusterUser s)))
                   (clusterUser.maxConcurrentQueries (clusterUser_at h (clusterUser s))))
      else if user_exceeded h (user s)
      then Some (UserLimitExceeded (user.name (user_at h (user s)))
                   (user.maxConcurrentQueries (user_at h (user s))))
      else None)"
  by (auto simp: scope_inc_def user_inc_def clusterUser_inc_def host_inc_def
      queryCounter_inc_def Let_def user_exceeded_def clusterUser_exceeded_def)

lemma scope_inc_fail_heap:
  assumes "fst (scope_inc s h) \<noteq> None"
  shows "snd (scope_inc s h) = h\<lparr>trace := trace h @
           [Inc (User (user s)), Inc (ClusterUser (clusterUser s)), Inc (Host (host s)),
            Dec (Host (host s)), Dec (User (user s)), Dec (ClusterUser (clusterUser s))]\<rparr>"
  using assms
  by (auto simp: scope_inc_def user_inc_def clusterUser_inc_def host_inc_def
      queryCounter_inc_def queryCounter_dec_def Let_def scope_dec_def
      user_dec_def clusterUser_dec_def host_dec_def split: if_splits)

lemma scope_inc_ok_heap:
  assumes "fst (scope_inc s h) = None"
  shows "snd (scope_inc s h) =
      h\<lparr>user_at := (user_at h)(user s := snd (queryCounter_inc (user_at h (user s)))),
        clusterUser_at := (clusterUser_at h)(clusterUser s :=
           snd (queryCounter_inc (clusterUser_at h (clusterUser s)))),
        host_at := (host_at h)(host s := snd (queryCounter_inc (host_at h (host s)))),
        trace := trace h @
           [Inc (User (user s)), Inc (ClusterUser (clusterUser s)), Inc (Host (host s))]\<rparr>"
  using assms
  by (auto simp: scope_inc_def user_inc_def clusterUser_inc_def host_inc_def
      queryCounter_inc_def Let_def split: if_splits)

lemma scope_dec_inc_ok:
  assumes "fst (scope_inc s h) = None"
  shows "scope_dec s (snd (scope_inc s h)) = h\<lparr>trace := trace h @
           [Inc (User (user s)), Inc (ClusterUser (clusterUser s)), Inc (Host (host s)),
            Dec (Host (host s)), Dec (User (user s)), Dec (ClusterUser (clusterUser s))]\<rparr>"
  apply (simp only: scope_inc_ok_heap[OF assms])
  apply (simp add: scope_dec_def user_dec_def clusterUser_dec_def host_dec_def
      queryCounter_inc_def queryCounter_dec_def Let_def)
  done

lemma admit_Inr:
  "admit u cu c h = Some (Inr (err, s, h')) \<longleftrightarrow>
     (\<exists>h1. newScope u cu c h = Some (Inr (s, h1)) \<and> scope_inc s h1 = (err, h'))"
proof (cases "newScope u cu c h")
  case None
  then show ?thesis by (simp add: admit_def)
next
  case (Some a)
  show ?thesis
  proof (cases a)
    case (Inl p)
    with Some show ?thesis by (simp add: admit_def)
  next
    case (Inr b)
    obtain s1 h1 where "b = (s1, h1)" by (cases b)
    with Some Inr show ?thesis
      by (cases "scope_inc s1 h1") (auto simp: admit_def)
  qed
qed

lemma example_admit_fail:
  "\<exists>s h'. admit 0 0 0 (example_heap 2) = Some (Inr (Some (UserLimitExceeded ''web'' 2), s, h'))"
  by (simp add: admit_def newScope_def getHost_def example_heap_def Let_def scan.simps runningQueries_def
      scope_inc_def user_inc_def clusterUser_inc_def host_inc_def queryCounter_inc_def)

lemma example_admit_ok:
  "\<exists>s h'. admit 0 0 0 (example_heap 1) = Some (Inr (None, s, h'))"
  by (simp add: admit_def newScope_def getHost_def example_heap_def Let_def scan.simps runningQueries_def
      scope_inc_def user_inc_def clusterUser_inc_def host_inc_def queryCounter_inc_def)

text \<open>
  C1. When \<open>admit\<close> returns (it does for every cluster of 1 to \<open>2^32 - 1\<close> nodes, lemma
  \<open>admit_returns\<close> below), it returns an error if and only if the user's ceiling is
  positive and the user's count after the increment exceeds it, or the cluster user's ceiling
  is positive and its count after the increment exceeds it. With both ceilings 0 it returns
  no error.
\<close>

theorem admit_fails_iff:
  assumes "admit u cu c h = Some (Inr (err, s, h'))"
  shows "(err \<noteq> None \<longleftrightarrow> user_exceeded h u \<or> clusterUser_exceeded h cu)
       \<and> (user.maxConcurrentQueries (user_at h u) = 0
            \<and> clusterUser.maxConcurrentQueries (clusterUser_at h cu) = 0 \<longrightarrow> err = None)"
proof -
  from assms obtain h1 where ns: "newScope u cu c h = Some (Inr (s, h1))"
    and inc: "scope_inc s h1 = (err, h')"
    by (auto simp: admit_Inr)
  from newScope_result[OF ns] have eq: "user s = u" "clusterUser s = cu"
      "user_at h1 = user_at h" "clusterUser_at h1 = clusterUser_at h" by simp_all
  have ue: "user_exceeded h1 u = user_exceeded h u"
    and ce: "clusterUser_exceeded h1 cu = clusterUser_exceeded h cu"
    by (simp_all add: user_exceeded_def clusterUser_exceeded_def eq)
  from inc have "err = fst (scope_inc s h1)" by simp
  then have iff: "err \<noteq> None \<longleftrightarrow> user_exceeded h u \<or> clusterUser_exceeded h cu"
    by (simp add: scope_inc_err eq ue ce)
  moreover have "user.maxConcurrentQueries (user_at h u) = 0
      \<and> clusterUser.maxConcurrentQueries (clusterUser_at h cu) = 0 \<longrightarrow> err = None"
    using iff by (auto simp: user_exceeded_def clusterUser_exceeded_def)
  ultimately show ?thesis by blast
qed

text \<open>An instance on an example state.\<close>

theorem admit_fails_iff_witness:
  "user_exceeded (example_heap 2) 0
   \<and> (\<exists>err s h'. admit 0 0 0 (example_heap 2) = Some (Inr (err, s, h')) \<and> err \<noteq> None)"
proof -
  have ex: "user_exceeded (example_heap 2) 0"
    by (simp add: user_exceeded_def example_heap_def)
  obtain s h' where a: "admit 0 0 0 (example_heap 2) = Some (Inr (Some (UserLimitExceeded ''web'' 2), s, h'))"
    using example_admit_fail by blast
  from admit_fails_iff[OF a] ex a show ?thesis by blast
qed

lemma admit_heap:
  assumes "admit u cu c h = Some (Inr (err, s, h'))"
  shows "user s = u \<and> clusterUser s = cu \<and> cluster s = c
     \<and> (\<exists>h1. user_at h1 = user_at h \<and> clusterUser_at h1 = clusterUser_at h
            \<and> host_at h1 = host_at h \<and> trace h1 = trace h
            \<and> scope_inc s h1 = (err, h'))"
proof -
  from assms obtain h1 where ns: "newScope u cu c h = Some (Inr (s, h1))"
    and inc: "scope_inc s h1 = (err, h')"
    by (auto simp: admit_Inr)
  from newScope_result[OF ns] inc show ?thesis by auto
qed

text \<open>
  C2. When \<open>admit\<close> returns a limit error, it has decremented the node's, the user's and
  the cluster user's counter after incrementing them: the counters of all users, cluster
  users and nodes are what they were before the call. The error carries the name and the
  ceiling of an entity whose ceiling was exceeded (the cluster user's when both were).
\<close>

theorem admit_failure_rolls_back:
  assumes "admit u cu c h = Some (Inr (Some e, s, h'))"
  shows "user_at h' = user_at h \<and> clusterUser_at h' = clusterUser_at h \<and> host_at h' = host_at h
     \<and> new_events h h' =
         [Inc (User u), Inc (ClusterUser cu), Inc (Host (host s)),
          Dec (Host (host s)), Dec (User u), Dec (ClusterUser cu)]
     \<and> (e = UserLimitExceeded (user.name (user_at h u)) (user.maxConcurrentQueries (user_at h u))
           \<and> user_exceeded h u
         \<or> e = ClusterUserLimitExceeded (clusterUser.name (clusterUser_at h cu))
                 (clusterUser.maxConcurrentQueries (clusterUser_at h cu))
           \<and> clusterUser_exceeded h cu)"
proof -
  from admit_heap[OF assms] obtain h1 where s: "user s = u" "clusterUser s = cu"
    and h1: "user_at h1 = user_at h" "clusterUser_at h1 = clusterUser_at h"
      "host_at h1 = host_at h" "trace h1 = trace h"
    and inc: "scope_inc s h1 = (Some e, h')" by blast
  from inc have f: "fst (scope_inc s h1) = Some e" and h': "h' = snd (scope_inc s h1)" by simp_all
  from f have "fst (scope_inc s h1) \<noteq> None" by simp
  from scope_inc_fail_heap[OF this] h' have
    "h' = h1\<lparr>trace := trace h1 @
           [Inc (User (user s)), Inc (ClusterUser (clusterUser s)), Inc (Host (host s)),
            Dec (Host (host s)), Dec (User (user s)), Dec (ClusterUser (clusterUser s))]\<rparr>"
    by simp
  then have st: "user_at h' = user_at h" "clusterUser_at h' = clusterUser_at h" "host_at h' = host_at h"
    and ev: "new_events h h' =
         [Inc (User u), Inc (ClusterUser cu), Inc (Host (host s)),
          Dec (Host (host s)), Dec (User u), Dec (ClusterUser cu)]"
    by (simp_all add: h1 s new_events_def)
  have ue: "user_exceeded h1 u = user_exceeded h u"
    and ce: "clusterUser_exceeded h1 cu = clusterUser_exceeded h cu"
    by (simp_all add: user_exceeded_def clusterUser_exceeded_def h1)
  from f have "e = UserLimitExceeded (user.name (user_at h u)) (user.maxConcurrentQueries (user_at h u))
           \<and> user_exceeded h u
         \<or> e = ClusterUserLimitExceeded (clusterUser.name (clusterUser_at h cu))
                 (clusterUser.maxConcurrentQueries (clusterUser_at h cu))
           \<and> clusterUser_exceeded h cu"
    by (simp add: scope_inc_err s h1 ue ce split: if_splits)
  with st ev show ?thesis by blast
qed

text \<open>An instance on an example state.\<close>

theorem admit_failure_rolls_back_witness:
  "\<exists>s h'. admit 0 0 0 (example_heap 2) = Some (Inr (Some (UserLimitExceeded ''web'' 2), s, h'))
     \<and> value' (user_at h' 0) = 2 \<and> value' (clusterUser_at h' 0) = 5
     \<and> value' (host_at h' (host s)) = value' (host_at (example_heap 2) (host s))"
proof -
  obtain s h' where a: "admit 0 0 0 (example_heap 2) = Some (Inr (Some (UserLimitExceeded ''web'' 2), s, h'))"
    using example_admit_fail by blast
  from admit_failure_rolls_back[OF a] have "user_at h' = user_at (example_heap 2)"
    "clusterUser_at h' = clusterUser_at (example_heap 2)" "host_at h' = host_at (example_heap 2)"
    by blast+
  then have "value' (user_at h' 0) = 2 \<and> value' (clusterUser_at h' 0) = 5
     \<and> value' (host_at h' (host s)) = value' (host_at (example_heap 2) (host s))"
    by (simp add: example_heap_def)
  with a show ?thesis by blast
qed

text \<open>
  C3. A successful \<open>admit\<close> followed by \<open>release\<close> of the scope leaves the counters of
  the user, of the cluster user and of the node (indeed of every object) as before the
  \<open>admit\<close>.
\<close>

theorem admit_release_roundtrip:
  assumes "admit u cu c h = Some (Inr (None, s, h'))"
  shows "user_at (release s h') = user_at h
       \<and> clusterUser_at (release s h') = clusterUser_at h
       \<and> host_at (release s h') = host_at h"
proof -
  from admit_heap[OF assms] obtain h1 where s: "user s = u" "clusterUser s = cu"
    and h1: "user_at h1 = user_at h" "clusterUser_at h1 = clusterUser_at h"
      "host_at h1 = host_at h" "trace h1 = trace h"
    and inc: "scope_inc s h1 = (None, h')" by blast
  from inc have f: "fst (scope_inc s h1) = None" and h': "h' = snd (scope_inc s h1)" by simp_all
  from scope_dec_inc_ok[OF f] h' show ?thesis
    by (simp add: release_def h1)
qed

text \<open>An instance on an example state.\<close>

theorem admit_release_roundtrip_witness:
  "\<exists>s h'. admit 0 0 0 (example_heap 1) = Some (Inr (None, s, h'))
     \<and> value' (user_at h' 0) = 2 \<and> value' (user_at (release s h') 0) = 1
     \<and> value' (clusterUser_at (release s h') 0) = 5
     \<and> value' (host_at (release s h') (host s)) = value' (host_at (example_heap 1) (host s))"
proof -
  obtain s h' where a: "admit 0 0 0 (example_heap 1) = Some (Inr (None, s, h'))"
    using example_admit_ok by blast
  from admit_heap[OF a] obtain h1 where s: "user s = 0" 
    and h1: "user_at h1 = user_at (example_heap 1)"
    and inc: "scope_inc s h1 = (None, h')" by blast
  from inc have f: "fst (scope_inc s h1) = None" and h': "h' = snd (scope_inc s h1)" by simp_all
  have v: "value' (user_at h' 0) = 2"
    by (simp add: h' scope_inc_ok_heap[OF f] s h1 queryCounter_inc_def example_heap_def)
  from admit_release_roundtrip[OF a] have "user_at (release s h') = user_at (example_heap 1)"
    "clusterUser_at (release s h') = clusterUser_at (example_heap 1)"
    "host_at (release s h') = host_at (example_heap 1)"
    by blast+
  then have "value' (user_at (release s h') 0) = 1
     \<and> value' (clusterUser_at (release s h') 0) = 5
     \<and> value' (host_at (release s h') (host s)) = value' (host_at (example_heap 1) (host s))"
    by (simp add: example_heap_def)
  with a v show ?thesis by blast
qed

text \<open>
  C9, as stated, fails: in the example state the counters are incremented in the order
  user, cluster user, node, so the node's increment does not precede the other two.
\<close>

theorem admit_node_not_first:
  "admit_events 0 0 0 (example_heap 1) = Some [Inc (User 0), Inc (ClusterUser 0), Inc (Host 1)]
   \<and> \<not> precedes (Inc (Host 1)) (Inc (User 0)) [Inc (User 0), Inc (ClusterUser 0), Inc (Host 1)]
   \<and> \<not> precedes (Inc (Host 1)) (Inc (ClusterUser 0)) [Inc (User 0), Inc (ClusterUser 0), Inc (Host 1)]"
proof -
  have "admit_events 0 0 0 (example_heap 1) = Some [Inc (User 0), Inc (ClusterUser 0), Inc (Host 1)]"
    by (simp add: admit_events_def new_events_def admit_def newScope_def getHost_def example_heap_def Let_def scan.simps runningQueries_def
      scope_inc_def user_inc_def clusterUser_inc_def host_inc_def queryCounter_inc_def)
  moreover have "\<not> precedes (Inc (Host 1)) (Inc (User 0)) [Inc (User 0), Inc (ClusterUser 0), Inc (Host 1)]"
    by (auto simp: precedes_def nth_Cons' less_Suc_eq split: if_splits)
  moreover have "\<not> precedes (Inc (Host 1)) (Inc (ClusterUser 0)) [Inc (User 0), Inc (ClusterUser 0), Inc (Host 1)]"
    by (auto simp: precedes_def nth_Cons' less_Suc_eq split: if_splits)
  ultimately show ?thesis by blast
qed

text \<open>
  C9, amended. Every \<open>admit\<close> that returns increments the user's counter first, then the
  cluster user's, then the selected node's: the user's and the cluster user's increment both
  precede the node's. These three increments are all the counter updates of a successful
  \<open>admit\<close>; a failing one then decrements the node's counter, the user's and the cluster
  user's, in that order, and updates no other counter.
\<close>

theorem admit_increment_order:
  assumes "admit u cu c h = Some (Inr (err, s, h'))"
  shows "new_events h h' =
           [Inc (User u), Inc (ClusterUser cu), Inc (Host (host s))]
           @ (if err = None then []
              else [Dec (Host (host s)), Dec (User u), Dec (ClusterUser cu)])
     \<and> take 3 (new_events h h') = [Inc (User u), Inc (ClusterUser cu), Inc (Host (host s))]
     \<and> precedes (Inc (User u)) (Inc (Host (host s))) (new_events h h')
     \<and> precedes (Inc (ClusterUser cu)) (Inc (Host (host s))) (new_events h h')"
proof -
  from admit_heap[OF assms] obtain h1 where s: "user s = u" "clusterUser s = cu"
    and h1: "trace h1 = trace h"
    and inc: "scope_inc s h1 = (err, h')" by blast
  from inc have f: "fst (scope_inc s h1) = err" and h': "h' = snd (scope_inc s h1)" by simp_all
  let ?rest = "if err = None then []
               else [Dec (Host (host s)), Dec (User u), Dec (ClusterUser cu)]"
  have ev: "new_events h h' = [Inc (User u), Inc (ClusterUser cu), Inc (Host (host s))] @ ?rest"
  proof (cases err)
    case None
    with f have "fst (scope_inc s h1) = None" by simp
    from scope_inc_ok_heap[OF this] show ?thesis
      by (simp add: h' new_events_def h1 s None)
  next
    case (Some e)
    with f have "fst (scope_inc s h1) \<noteq> None" by simp
    from scope_inc_fail_heap[OF this] show ?thesis
      by (simp add: h' new_events_def h1 s Some)
  qed
  have p1: "precedes (Inc (User u)) (Inc (Host (host s))) (new_events h h')"
    unfolding precedes_def ev
    by (rule exI[of _ 0], rule exI[of _ 2]) simp
  have p2: "precedes (Inc (ClusterUser cu)) (Inc (Host (host s))) (new_events h h')"
    unfolding precedes_def ev
    by (rule exI[of _ 1], rule exI[of _ 2]) simp
  have t3: "take 3 (new_events h h') = [Inc (User u), Inc (ClusterUser cu), Inc (Host (host s))]"
    unfolding ev by simp
  from ev t3 p1 p2 show ?thesis by blast
qed

text \<open>Instances on the example states: a successful and a failing \<open>admit\<close>.\<close>

theorem admit_increment_order_witness:
  "(\<exists>s h'. admit 0 0 0 (example_heap 1) = Some (Inr (None, s, h'))
      \<and> new_events (example_heap 1) h' =
            [Inc (User 0), Inc (ClusterUser 0), Inc (Host (host s))])
   \<and> (\<exists>s h'. admit 0 0 0 (example_heap 2) = Some (Inr (Some (UserLimitExceeded ''web'' 2), s, h'))
      \<and> new_events (example_heap 2) h' =
            [Inc (User 0), Inc (ClusterUser 0), Inc (Host (host s)),
             Dec (Host (host s)), Dec (User 0), Dec (ClusterUser 0)])"
proof -
  obtain s h' where a: "admit 0 0 0 (example_heap 1) = Some (Inr (None, s, h'))"
    using example_admit_ok by blast
  from admit_increment_order[OF a] have
    "new_events (example_heap 1) h' = [Inc (User 0), Inc (ClusterUser 0), Inc (Host (host s))]"
    by simp
  with a have ok: "\<exists>s h'. admit 0 0 0 (example_heap 1) = Some (Inr (None, s, h'))
      \<and> new_events (example_heap 1) h' =
            [Inc (User 0), Inc (ClusterUser 0), Inc (Host (host s))]"
    by blast
  obtain s2 h2 where b: "admit 0 0 0 (example_heap 2) =
      Some (Inr (Some (UserLimitExceeded ''web'' 2), s2, h2))"
    using example_admit_fail by blast
  from admit_increment_order[OF b] have
    "new_events (example_heap 2) h2 =
       [Inc (User 0), Inc (ClusterUser 0), Inc (Host (host s2)),
        Dec (Host (host s2)), Dec (User 0), Dec (ClusterUser 0)]"
    by simp
  with b have "\<exists>s h'. admit 0 0 0 (example_heap 2) =
        Some (Inr (Some (UserLimitExceeded ''web'' 2), s, h'))
      \<and> new_events (example_heap 2) h' =
            [Inc (User 0), Inc (ClusterUser 0), Inc (Host (host s)),
             Dec (Host (host s)), Dec (User 0), Dec (ClusterUser 0)]"
    by blast
  with ok show ?thesis by blast
qed

section \<open>Node selection: getHost\<close>

lemma unat_succ_mod:
  fixes i l :: u32
  assumes "unat i < unat l"
  shows "unat ((i + 1) mod l) = (unat i + 1) mod unat l"
proof -
  have "unat l < 2 ^ 32" using unsigned_less[of l] by simp
  with assms have "unat i + 1 < 2 ^ LENGTH(32)" by simp
  then have "unat (i + 1) = unat i + 1"
    by (metis unat_1 unat_add_lem)
  then show ?thesis by (simp add: unat_mod)
qed

lemma ring_dist:
  fixes a b L :: nat
  assumes "a < L" "b < L"
  shows "(b + L - a) mod L = (if a \<le> b then b - a else b + L - a)"
proof (cases "a \<le> b")
  case True
  then have "b + L - a = (b - a) + L" by simp
  then have "(b + L - a) mod L = (b - a) mod L" by simp
  with True assms show ?thesis by simp
next
  case False
  with assms have "b + L - a < L" by simp
  with False show ?thesis by simp
qed

lemma ring_zero:
  fixes a b L :: nat
  assumes "a < L" "b < L" "(b + L - a) mod L = 0"
  shows "b = a"
  using assms by (simp add: ring_dist split: if_splits)

lemma ring_step:
  fixes a b L k :: nat
  assumes "a < L" "b < L" "(b + L - a) mod L = Suc k"
  shows "(b + L - (a + 1) mod L) mod L = k"
proof (cases "a + 1 = L")
  case True
  then have "(a + 1) mod L = 0" by simp
  then have "(b + L - (a + 1) mod L) mod L = b" using assms by simp
  moreover from assms True have "b = k" by (simp add: ring_dist split: if_splits)
  ultimately show ?thesis by simp
next
  case False
  with assms have lt: "a + 1 < L" by simp
  then have "(a + 1) mod L = a + 1" by simp
  moreover have "(b + L - (a + 1)) mod L = k"
    using assms lt ring_dist[of "a + 1" L b] by (simp add: ring_dist split: if_splits)
  ultimately show ?thesis by simp
qed

lemma scan_step:
  fixes l idx i :: u32
  assumes  ne: "i \<noteq> idx" and l0: "l \<noteq> 0" and "unat i < length hs"
  shows  "scan h hs l idx i idle idleN =
      (if load h (hs ! unat i) = 0 then Some (Inr (hs ! unat i))
       else if load h (hs ! unat i) < idleN
         then scan h hs l idx ((i + 1) mod l) (hs ! unat i) (load h (hs ! unat i))
         else scan h hs l idx ((i + 1) mod l) idle idleN)"
  apply (subst scan.simps)
  apply (simp only: assms Let_def load_def if_True if_False refl not_False_eq_True)
  done

lemma scan_eq:
  assumes "length hs = L" "unat l = L" "unat idx < L"
  shows "unat i < L \<Longrightarrow> (unat idx + L - unat i) mod L = k \<Longrightarrow>
     scan h hs l idx i idle idleN =
       Some (Inr (scan_list (load h) (map (\<lambda>j. hs ! ((unat i + j) mod L)) [0..<k]) idle idleN))"
proof (induction k arbitrary: i idle idleN)
  case 0
  then have "unat idx = unat i" using assms(3) ring_zero[of "unat i" L "unat idx"] by simp
  then have "i = idx" by (rule word_unat_eq_iff[THEN iffD2, symmetric])
  then show ?case by (subst scan.simps) (simp only: if_False simp_thms upt_0 list.map scan_list.simps)
next
  case (Suc k)
  have ne: "i \<noteq> idx"
  proof
    assume "i = idx"
    with Suc.prems(2) assms(3) show False by simp
  qed
  have l0: "l \<noteq> 0"
  proof
    assume "l = 0"
    with assms(2) assms(3) show False by simp
  qed
  from Suc.prems(1) have il: "unat i < unat l" by (simp only: assms(2))
  have i': "unat ((i + 1) mod l) = (unat i + 1) mod L"
    using unat_succ_mod[OF il] by (simp only: assms(2))
  have "0 < L" using assms(3) by simp
  then have lt': "unat ((i + 1) mod l) < L" unfolding i' by simp
  have k': "(unat idx + L - unat ((i + 1) mod l)) mod L = k"
    unfolding i' using ring_step[OF Suc.prems(1) assms(3) Suc.prems(2)] .
  note IH = Suc.IH[OF lt' k']
  have "map (\<lambda>j. hs ! ((unat i + j) mod L)) [0..<Suc k] =
      hs ! ((unat i + 0) mod L) # map (\<lambda>j. hs ! ((unat i + Suc j) mod L)) [0..<k]"
    by (rule map_upt_Suc)
  also have "(unat i + 0) mod L = unat i" using Suc.prems(1) by simp
  also have "(\<lambda>j. hs ! ((unat i + Suc j) mod L)) = (\<lambda>j. hs ! ((unat ((i + 1) mod l) + j) mod L))"
    by (simp add: i' mod_add_left_eq)
  finally have m: "map (\<lambda>j. hs ! ((unat i + j) mod L)) [0..<Suc k] =
      hs ! unat i # map (\<lambda>j. hs ! ((unat ((i + 1) mod l) + j) mod L)) [0..<k]" .
  have il2: "unat i < length hs" using Suc.prems(1) assms(1) by simp
  show ?case
    by (simp only: scan_step[OF ne l0 il2] m scan_list.simps IH if_distrib[of "\<lambda>x. Some (Inr x)"] if_distrib[of Some] if_distrib[of Inr])
qed

lemma scan_list_zero:
  assumes "\<exists>x\<in>set xs. ld x = 0"
  shows "ld (scan_list ld xs idle idleN) = 0 \<and> scan_list ld xs idle idleN \<in> set xs"
  using assms by (induction xs arbitrary: idle idleN) auto

lemma scan_list_min:
  assumes "\<forall>x\<in>set xs. ld x \<noteq> 0"
  shows "(scan_list ld xs idle (ld idle) = idle \<and> (\<forall>x\<in>set xs. ld idle \<le> ld x))
       \<or> (\<exists>k<length xs. scan_list ld xs idle (ld idle) = xs ! k
              \<and> ld (xs ! k) < ld idle
              \<and> (\<forall>j<length xs. ld (xs ! k) \<le> ld (xs ! j))
              \<and> (\<forall>j<k. ld (xs ! k) < ld (xs ! j)))"
  using assms
proof (induction xs arbitrary: idle)
  case Nil
  then show ?case by simp
next
  case (Cons x xs)
  from Cons.prems have nz: "\<forall>y\<in>set xs. ld y \<noteq> 0" and x0: "ld x \<noteq> 0" by simp_all
  show ?case
  proof (cases "ld x < ld idle")
    case True
    then have r: "scan_list ld (x # xs) idle (ld idle) = scan_list ld xs x (ld x)"
      using x0 by simp
    from Cons.IH[OF nz, of x] show ?thesis
    proof
      assume a: "scan_list ld xs x (ld x) = x \<and> (\<forall>y\<in>set xs. ld x \<le> ld y)"
      have "0 < length (x # xs) \<and> scan_list ld (x # xs) idle (ld idle) = (x # xs) ! 0
          \<and> ld ((x # xs) ! 0) < ld idle
          \<and> (\<forall>j<length (x # xs). ld ((x # xs) ! 0) \<le> ld ((x # xs) ! j))
          \<and> (\<forall>j<0. ld ((x # xs) ! 0) < ld ((x # xs) ! j))"
        using a r True by (auto simp: nth_Cons')
      then show ?thesis by blast
    next
      assume "\<exists>k<length xs. scan_list ld xs x (ld x) = xs ! k
              \<and> ld (xs ! k) < ld x
              \<and> (\<forall>j<length xs. ld (xs ! k) \<le> ld (xs ! j))
              \<and> (\<forall>j<k. ld (xs ! k) < ld (xs ! j))"
      then obtain k where k: "k < length xs" "scan_list ld xs x (ld x) = xs ! k"
        "ld (xs ! k) < ld x" "\<forall>j<length xs. ld (xs ! k) \<le> ld (xs ! j)"
        "\<forall>j<k. ld (xs ! k) < ld (xs ! j)" by blast
      have "Suc k < length (x # xs) \<and> scan_list ld (x # xs) idle (ld idle) = (x # xs) ! Suc k
          \<and> ld ((x # xs) ! Suc k) < ld idle
          \<and> (\<forall>j<length (x # xs). ld ((x # xs) ! Suc k) \<le> ld ((x # xs) ! j))
          \<and> (\<forall>j<Suc k. ld ((x # xs) ! Suc k) < ld ((x # xs) ! j))"
        using k r True by (auto simp: nth_Cons' less_Suc_eq_0_disj)
      then show ?thesis by blast
    qed
  next
    case False
    then have r: "scan_list ld (x # xs) idle (ld idle) = scan_list ld xs idle (ld idle)"
      using x0 by simp
    from False have le: "ld idle \<le> ld x" by simp
    from Cons.IH[OF nz, of idle] show ?thesis
    proof
      assume a: "scan_list ld xs idle (ld idle) = idle \<and> (\<forall>y\<in>set xs. ld idle \<le> ld y)"
      then show ?thesis using r le by simp
    next
      assume "\<exists>k<length xs. scan_list ld xs idle (ld idle) = xs ! k
              \<and> ld (xs ! k) < ld idle
              \<and> (\<forall>j<length xs. ld (xs ! k) \<le> ld (xs ! j))
              \<and> (\<forall>j<k. ld (xs ! k) < ld (xs ! j))"
      then obtain k where k: "k < length xs" "scan_list ld xs idle (ld idle) = xs ! k"
        "ld (xs ! k) < ld idle" "\<forall>j<length xs. ld (xs ! k) \<le> ld (xs ! j)"
        "\<forall>j<k. ld (xs ! k) < ld (xs ! j)" by blast
      have "Suc k < length (x # xs) \<and> scan_list ld (x # xs) idle (ld idle) = (x # xs) ! Suc k
          \<and> ld ((x # xs) ! Suc k) < ld idle
          \<and> (\<forall>j<length (x # xs). ld ((x # xs) ! Suc k) \<le> ld ((x # xs) ! j))
          \<and> (\<forall>j<Suc k. ld ((x # xs) ! Suc k) < ld ((x # xs) ! j))"
        using k r le by (auto simp: nth_Cons' less_Suc_eq_0_disj)
      then show ?thesis by blast
    qed
  qed
qed

lemma select_zero:
  assumes "xs \<noteq> []" "\<exists>x\<in>set xs. ld x = 0"
  shows "ld (select ld xs) = 0 \<and> select ld xs \<in> set xs"
proof (cases xs)
  case Nil
  with assms show ?thesis by simp
next
  case (Cons y ys)
  show ?thesis
  proof (cases "ld y = 0")
    case True
    then show ?thesis by (simp add: select_def Cons)
  next
    case False
    with assms Cons have "\<exists>x\<in>set ys. ld x = 0" by auto
    from scan_list_zero[OF this, of y "ld y"] False show ?thesis
      by (simp add: select_def Cons)
  qed
qed

lemma select_min:
  assumes "xs \<noteq> []" "\<forall>x\<in>set xs. ld x \<noteq> 0"
  shows "\<exists>k<length xs. select ld xs = xs ! k
              \<and> (\<forall>j<length xs. ld (xs ! k) \<le> ld (xs ! j))
              \<and> (\<forall>j<k. ld (xs ! k) < ld (xs ! j))"
proof (cases xs)
  case Nil
  with assms show ?thesis by simp
next
  case (Cons y ys)
  with assms have nz: "\<forall>x\<in>set ys. ld x \<noteq> 0" and y0: "ld y \<noteq> 0" by simp_all
  have s: "select ld xs = scan_list ld ys y (ld y)" using y0 by (simp add: select_def Cons)
  from scan_list_min[OF nz, of y] show ?thesis
  proof
    assume a: "scan_list ld ys y (ld y) = y \<and> (\<forall>x\<in>set ys. ld y \<le> ld x)"
    have "0 < length xs \<and> select ld xs = xs ! 0
              \<and> (\<forall>j<length xs. ld (xs ! 0) \<le> ld (xs ! j))
              \<and> (\<forall>j<0. ld (xs ! 0) < ld (xs ! j))"
      using a s by (auto simp: Cons nth_Cons')
    then show ?thesis by blast
  next
    assume "\<exists>k<length ys. scan_list ld ys y (ld y) = ys ! k \<and> ld (ys ! k) < ld y \<and>
      (\<forall>j<length ys. ld (ys ! k) \<le> ld (ys ! j)) \<and> (\<forall>j<k. ld (ys ! k) < ld (ys ! j))"
    then obtain k where k: "k < length ys" "scan_list ld ys y (ld y) = ys ! k"
        "ld (ys ! k) < ld y" "\<forall>j<length ys. ld (ys ! k) \<le> ld (ys ! j)"
        "\<forall>j<k. ld (ys ! k) < ld (ys ! j)" by blast
    have "Suc k < length xs \<and> select ld xs = xs ! Suc k
              \<and> (\<forall>j<length xs. ld (xs ! Suc k) \<le> ld (xs ! j))
              \<and> (\<forall>j<Suc k. ld (xs ! Suc k) < ld (xs ! j))"
      using k s by (auto simp: Cons nth_Cons' less_Suc_eq_0_disj)
    then show ?thesis by blast
  qed
qed

lemma rotate_as_map:
  "rotate n xs = map (\<lambda>j. xs ! ((n + j) mod length xs)) [0..<length xs]"
  by (rule nth_equalityI) (simp_all add: nth_rotate)

lemma load_advance: "load (advance c h) = load h"
  by (rule ext) (simp add: load_def advance_def)

lemma getHost_eq:
  assumes hs: "hosts (cluster_at h c) = hs" and ne: "hs \<noteq> []" and lt: "length hs < 2 ^ 32"
  shows "getHost c h = Some (Inr (select (load h) (scan_order (cluster_at h c)), advance c h))"
proof -
  define L where "L = length hs"
  define l :: u32 where "l = of_nat L"
  define idx :: u32 where "idx = (nextIdx (cluster_at h c) + 1) mod l"
  define h' where "h' = advance c h"
  have L0: "0 < L" using ne by (simp add: L_def)
  have ul: "unat l = L" unfolding l_def using lt by (simp add: L_def unat_of_nat)
  have l0: "l \<noteq> 0"
  proof
    assume "l = 0"
    with ul L0 show False by simp
  qed
  have ui: "unat idx < L" unfolding idx_def by (simp add: unat_mod ul L0)
  have st: "start_index (cluster_at h c) = unat idx"
    by (simp add: start_index_def idx_def l_def L_def hs)
  have hs': "hosts (cluster_at h' c) = hs" by (simp add: h'_def advance_def hs)
  have len: "length hs = L" by (simp add: L_def)
  have il: "unat idx < unat l" using ui by (simp only: ul)
  have ui1: "unat ((idx + 1) mod l) = (unat idx + 1) mod L"
    using unat_succ_mod[OF il] by (simp only: ul)
  have ui1lt: "unat ((idx + 1) mod l) < L" unfolding ui1 using L0 by simp
  have k: "(unat idx + L - unat ((idx + 1) mod l)) mod L = L - 1"
  proof (cases "unat idx + 1 = L")
    case True
    then have "unat ((idx + 1) mod l) = 0" by (simp add: ui1)
    then show ?thesis using True by simp
  next
    case False
    with ui have "unat idx + 1 < L" by simp
    then have "unat ((idx + 1) mod l) = unat idx + 1" by (simp add: ui1)
    then show ?thesis using L0 by simp
  qed
  have order: "scan_order (cluster_at h c) = map (\<lambda>j. hs ! ((unat idx + j) mod L)) [0..<L]"
    by (simp add: scan_order_def st hs rotate_as_map L_def)
  obtain L' where L': "L = Suc L'" using L0 by (cases L) simp_all
  have "map (\<lambda>j. hs ! ((unat idx + j) mod L)) [0..<Suc L'] =
      hs ! ((unat idx + 0) mod L) # map (\<lambda>j. hs ! ((unat idx + Suc j) mod L)) [0..<L']"
    by (rule map_upt_Suc)
  also have "(unat idx + 0) mod L = unat idx" using ui by simp
  also have "(\<lambda>j. hs ! ((unat idx + Suc j) mod L)) = (\<lambda>j. hs ! ((unat ((idx + 1) mod l) + j) mod L))"
    by (simp add: ui1 mod_add_left_eq)
  finally have order': "scan_order (cluster_at h c) =
      hs ! unat idx # map (\<lambda>j. hs ! ((unat ((idx + 1) mod l) + j) mod L)) [0..<L - 1]"
    by (simp add: order L')
  have sel: "select (load h) (scan_order (cluster_at h c)) =
      (if load h (hs ! unat idx) = 0 then hs ! unat idx
       else scan_list (load h) (map (\<lambda>j. hs ! ((unat ((idx + 1) mod l) + j) mod L)) [0..<L - 1])
              (hs ! unat idx) (load h (hs ! unat idx)))"
    by (simp only: order' select_def list.sel)
  have sc: "scan h' hs l idx ((idx + 1) mod l) idle idleN =
       Some (Inr (scan_list (load h) (map (\<lambda>j. hs ! ((unat ((idx + 1) mod l) + j) mod L)) [0..<L - 1]) idle idleN))"
    for idle idleN
    using scan_eq[OF len ul ui ui1lt k, of h' idle idleN]
    by (simp only: h'_def load_advance)
  have ld: "runningQueries (host_at h' r) = load h r" for r
    by (simp add: h'_def advance_def load_def)
  have g: "getHost c h =
     (if l = 0 then Some (Inl DivideByZero)
      else if unat idx < length hs then
         (if load h (hs ! unat idx) = 0 then Some (Inr (hs ! unat idx, h'))
          else case scan h' hs l idx ((idx + 1) mod l) (hs ! unat idx) (load h (hs ! unat idx)) of
                 None \<Rightarrow> None | Some (Inl p) \<Rightarrow> Some (Inl p) | Some (Inr r) \<Rightarrow> Some (Inr (r, h')))
      else Some (Inl IndexOutOfRange))"
    unfolding getHost_def Let_def
    by (simp only: h'_def[symmetric, unfolded advance_def] hs' ld l_def[symmetric, unfolded L_def] idx_def[symmetric])
  show ?thesis
    unfolding g sel h'_def[symmetric]
    using l0 ui len by (simp add: sc)
qed

text \<open>
  For a cluster of 1 to \<open>2^32 - 1\<close> nodes \<open>getHost\<close> returns (lemma \<open>getHost_eq\<close>), and
  so does \<open>admit\<close>: no panic, and the scan ends.
\<close>

lemma admit_returns:
  assumes "hosts (cluster_at h c) \<noteq> []" and "length (hosts (cluster_at h c)) < 2 ^ 32"
  shows "\<exists>err s h'. admit u cu c h = Some (Inr (err, s, h'))"
proof -
  let ?h1 = "h\<lparr>scopeId := scopeId h + 1\<rparr>"
  have hs: "hosts (cluster_at ?h1 c) = hosts (cluster_at h c)" by simp
  from getHost_eq[OF hs assms] obtain r h2 where g: "getHost c ?h1 = Some (Inr (r, h2))"
    by blast
  then obtain s where "newScope u cu c h = Some (Inr (s, h2))"
    by (simp add: newScope_def Let_def)
  then show ?thesis
    by (cases "scope_inc s h2") (simp add: admit_def)
qed

lemma scan_order_nth:
  assumes "j < length (hosts cl)"
  shows "scan_order cl ! j = hosts cl ! ((start_index cl + j) mod length (hosts cl))"
  using assms by (simp add: scan_order_def nth_rotate)

lemma scan_order_set: "set (scan_order cl) = set (hosts cl)"
  by (simp add: scan_order_def)

lemma scan_order_length: "length (scan_order cl) = length (hosts cl)"
  by (simp add: scan_order_def)

text \<open>
  C4. For a cluster with at least one node (and fewer than \<open>2^32\<close>, so that
  \<^verbatim>\<open>uint32(len(c.hosts))\<close> is the number of nodes) and any cursor: if some node has no
  running query, \<open>getHost\<close> returns a node of the cluster that has no running query.
\<close>

theorem getHost_returns_idle:
  assumes "hosts (cluster_at h c) \<noteq> []" and "length (hosts (cluster_at h c)) < 2 ^ 32"
    and "\<exists>r\<in>set (hosts (cluster_at h c)). runningQueries (host_at h r) = 0"
  shows "\<exists>r h'. getHost c h = Some (Inr (r, h')) \<and> r \<in> set (hosts (cluster_at h c))
           \<and> runningQueries (host_at h r) = 0 \<and> runningQueries (host_at h' r) = 0"
proof -
  let ?cl = "cluster_at h c"
  have g: "getHost c h = Some (Inr (select (load h) (scan_order ?cl), advance c h))"
    using getHost_eq[OF refl assms(1) assms(2)] .
  have ne: "scan_order ?cl \<noteq> []" using assms(1) scan_order_length[of ?cl] by auto
  have "\<exists>x\<in>set (scan_order ?cl). load h x = 0"
    using assms(3) by (simp add: scan_order_set load_def)
  from select_zero[OF ne this] have "load h (select (load h) (scan_order ?cl)) = 0"
    and "select (load h) (scan_order ?cl) \<in> set (hosts ?cl)"
    by (simp_all add: scan_order_set)
  moreover from this(1) have "load (advance c h) (select (load h) (scan_order ?cl)) = 0"
    by (simp only: load_advance)
  ultimately show ?thesis using g by (auto simp: load_def)
qed

text \<open>
  C5. For a cluster of 1 to \<open>2^32 - 1\<close> nodes in which every node has a running query, and
  any cursor, \<open>getHost\<close> returns the node at position \<open>k\<close> of the scan order (the start
  node \<open>s\<close> first, then increasing index modulo the number of nodes) where that node has
  the least load of all nodes and every node scanned before it has a strictly larger load;
  if no node has a smaller load than the start node, the start node is returned.
\<close>

theorem getHost_least_loaded:
  assumes "hosts (cluster_at h c) = hs" and "hs \<noteq> []" and "length hs < 2 ^ 32"
    and "\<forall>r\<in>set hs. runningQueries (host_at h r) \<noteq> 0"
    and "start_index (cluster_at h c) = s"
  shows "\<exists>k<length hs.
           getHost c h = Some (Inr (hs ! ((s + k) mod length hs), advance c h))
         \<and> (\<forall>r\<in>set hs. load h (hs ! ((s + k) mod length hs)) \<le> load h r)
         \<and> (\<forall>j<k. load h (hs ! ((s + k) mod length hs)) < load h (hs ! ((s + j) mod length hs)))
         \<and> ((\<forall>r\<in>set hs. load h (hs ! s) \<le> load h r) \<longrightarrow> k = 0)"
proof -
  let ?cl = "cluster_at h c"
  let ?xs = "scan_order ?cl"
  have g: "getHost c h = Some (Inr (select (load h) ?xs, advance c h))"
    using getHost_eq[OF assms(1) assms(2) assms(3)] .
  have len: "length ?xs = length hs" by (simp add: scan_order_length assms(1))
  have ne: "?xs \<noteq> []" using assms(2) len by auto
  have nz: "\<forall>x\<in>set ?xs. load h x \<noteq> 0"
    using assms(4) by (simp add: scan_order_set load_def assms(1))
  from select_min[OF ne nz] obtain k where k: "k < length ?xs" "select (load h) ?xs = ?xs ! k"
    "\<forall>j<length ?xs. load h (?xs ! k) \<le> load h (?xs ! j)"
    "\<forall>j<k. load h (?xs ! k) < load h (?xs ! j)" by blast
  have nth: "?xs ! j = hs ! ((s + j) mod length hs)" if "j < length hs" for j
    using scan_order_nth[of j ?cl] that by (simp add: assms(1) assms(5))
  have kl: "k < length hs" using k(1) len by simp
  have r: "getHost c h = Some (Inr (hs ! ((s + k) mod length hs), advance c h))"
    using g k(2) nth[OF kl] by simp
  have m: "\<forall>r\<in>set hs. load h (hs ! ((s + k) mod length hs)) \<le> load h r"
  proof
    fix r assume "r \<in> set hs"
    then have "r \<in> set ?xs" by (simp add: scan_order_set assms(1))
    then obtain j where "j < length ?xs" "?xs ! j = r" by (auto simp: in_set_conv_nth)
    with k(3) have "load h (?xs ! k) \<le> load h r" by auto
    then show "load h (hs ! ((s + k) mod length hs)) \<le> load h r" using nth[OF kl] by simp
  qed
  have e: "\<forall>j<k. load h (hs ! ((s + k) mod length hs)) < load h (hs ! ((s + j) mod length hs))"
  proof (intro allI impI)
    fix j assume jk: "j < k"
    then have jl: "j < length hs" using kl by simp
    from k(4) jk have "load h (?xs ! k) < load h (?xs ! j)" by simp
    then show "load h (hs ! ((s + k) mod length hs)) < load h (hs ! ((s + j) mod length hs))"
      using nth[OF kl] nth[OF jl] by simp
  qed
  have sl: "s < length hs"
  proof -
    have "unat ((of_nat (length hs)) :: u32) = length hs"
      using assms(3) by (simp add: unat_of_nat)
    then have "unat ((nextIdx ?cl + 1) mod of_nat (length hs) :: u32) < length hs"
      using assms(2) by (simp add: unat_mod)
    then show ?thesis using assms(5) by (simp add: start_index_def assms(1))
  qed
  have f: "(\<forall>r\<in>set hs. load h (hs ! s) \<le> load h r) \<longrightarrow> k = 0"
  proof
    assume a: "\<forall>r\<in>set hs. load h (hs ! s) \<le> load h r"
    show "k = 0"
    proof (rule ccontr)
      assume "k \<noteq> 0"
      then have "0 < k" by simp
      with e have "load h (hs ! ((s + k) mod length hs)) < load h (hs ! ((s + 0) mod length hs))"
        by blast
      then have lt: "load h (hs ! ((s + k) mod length hs)) < load h (hs ! s)" using sl by simp
      have "hs ! ((s + k) mod length hs) \<in> set hs" using assms(2) by simp
      with a have "load h (hs ! s) \<le> load h (hs ! ((s + k) mod length hs))" by blast
      with lt show False by simp
    qed
  qed
  from kl r m e f show ?thesis by blast
qed

text \<open>An instance on an example state.\<close>

theorem getHost_returns_idle_witness:
  "\<exists>r h'. getHost 0 (example_heap_with 5 [1, 2, 0]) = Some (Inr (r, h')) \<and> r = 0
     \<and> runningQueries (host_at (example_heap_with 5 [1, 2, 0]) r) = 0"
proof -
  let ?h = "example_heap_with 5 [1, 2, 0]"
  have hs: "hosts (cluster_at ?h 0) = [1, 2, 0]" by (simp add: example_heap_with_def)
  have a: "hosts (cluster_at ?h 0) \<noteq> []" by (simp add: example_heap_with_def)
  have b: "length (hosts (cluster_at ?h 0)) < 2 ^ 32" by (simp add: example_heap_with_def)
  have ld: "runningQueries (host_at ?h r) = of_nat r" for r
    by (simp add: example_heap_with_def example_heap_def runningQueries_def)
  have c: "\<exists>r\<in>set (hosts (cluster_at ?h 0)). runningQueries (host_at ?h r) = 0"
    unfolding hs ld by simp
  from getHost_returns_idle[OF a b c] obtain r h' where r: "getHost 0 ?h = Some (Inr (r, h'))"
    "r \<in> set (hosts (cluster_at ?h 0))" "runningQueries (host_at ?h r) = 0" by blast
  from r(2) have "r = 1 \<or> r = 2 \<or> r = 0" unfolding hs by auto
  with r(3) have "r = 0" unfolding ld by auto
  with r show ?thesis by blast
qed

text \<open>An instance on an example state.\<close>

theorem getHost_least_loaded_witness:
  "\<exists>k<3. getHost 0 (example_heap 0) = Some (Inr ([1, 2, 3] ! ((2 + k) mod 3), advance 0 (example_heap 0)))
      \<and> k = 1"
proof -
  let ?h = "example_heap 0"
  have hs: "hosts (cluster_at ?h 0) = [1, 2, 3]" by (simp add: example_heap_def)
  have a: "[1, 2, 3] \<noteq> ([] :: ref list)" by simp
  have b: "length [1, 2, 3 :: ref] < 2 ^ 32" by simp
  have ld: "runningQueries (host_at ?h r) = of_nat r" for r
    by (simp add: example_heap_def runningQueries_def)
  have c: "\<forall>r\<in>set [1, 2, 3]. runningQueries (host_at ?h r) \<noteq> 0"
    by (simp add: ld)
  have s: "start_index (cluster_at ?h 0) = 2"
    by (simp add: start_index_def example_heap_def)
  from getHost_least_loaded[OF hs a b c s] obtain k where k: "k < length [1, 2, 3 :: ref]"
    "getHost 0 ?h = Some (Inr ([1, 2, 3] ! ((2 + k) mod length [1, 2, 3 :: ref]), advance 0 ?h))"
    "\<forall>r\<in>set [1, 2, 3]. load ?h ([1, 2, 3] ! ((2 + k) mod length [1, 2, 3 :: ref])) \<le> load ?h r"
    by blast
  from k(1) have k3: "k < 3" by simp
  then have "k = 0 \<or> k = 1 \<or> k = 2" by auto
  moreover have "\<not> load ?h 3 \<le> load ?h 1" "\<not> load ?h 2 \<le> load ?h 1"
    unfolding load_def ld by (simp_all add: word_le_nat_alt)
  ultimately have "k = 1" using k(3) by auto
  with k(2) k3 show ?thesis by simp
qed

section \<open>Round robin: successive calls of getHost\<close>

lemma getHost_idle:
  assumes hs: "hosts (cluster_at h c) = hs" and ne: "hs \<noteq> []" and lt: "length hs < 2 ^ 32"
    and idle: "\<forall>r\<in>set hs. load h r = 0"
  shows "getHost c h = Some (Inr (hs ! start_index (cluster_at h c), advance c h))"
proof -
  let ?cl = "cluster_at h c"
  have len: "unat (of_nat (length hs) :: u32) = length hs"
    using lt by (simp add: unat_of_nat)
  have sl: "start_index ?cl < length hs"
    unfolding start_index_def hs using ne by (simp add: unat_mod len)
  have hd: "hd (scan_order ?cl) = hs ! start_index ?cl"
    unfolding scan_order_def hs using ne sl by (simp add: hd_rotate_conv_nth)
  have "hs ! start_index ?cl \<in> set hs" using sl by simp
  with idle have "load h (hs ! start_index ?cl) = 0" by blast
  then have "select (load h) (scan_order ?cl) = hs ! start_index ?cl"
    by (simp add: select_def hd)
  with getHost_eq[OF hs ne lt] show ?thesis by simp
qed

lemma advance_fields:
  "hosts (cluster_at (advance c h) c) = hosts (cluster_at h c)"
  "nextIdx (cluster_at (advance c h) c) = nextIdx (cluster_at h c) + 1"
  by (simp_all add: advance_def)

lemma getHosts_idle:
  assumes ne: "hs \<noteq> []" and lt: "length hs < 2 ^ 32"
  shows "hosts (cluster_at h c) = hs \<Longrightarrow> \<forall>r\<in>set hs. load h r = 0 \<Longrightarrow>
    \<exists>h'. getHosts n c h =
       Some (Inr (map (\<lambda>k. hs ! unat ((nextIdx (cluster_at h c) + 1 + of_nat k) mod (of_nat (length hs) :: u32))) [0..<n], h'))"
proof (induction n arbitrary: h)
  case 0
  then show ?case by simp
next
  case (Suc n)
  let ?nx = "nextIdx (cluster_at h c)"
  let ?l = "of_nat (length hs) :: u32"
  have g: "getHost c h = Some (Inr (hs ! unat ((?nx + 1) mod ?l), advance c h))"
    using getHost_idle[OF Suc.prems(1) ne lt Suc.prems(2)]
    by (simp add: start_index_def Suc.prems(1))
  have hs': "hosts (cluster_at (advance c h) c) = hs"
    by (simp add: advance_fields Suc.prems(1))
  have idle': "\<forall>r\<in>set hs. load (advance c h) r = 0"
    using Suc.prems(2) by (simp only: load_advance)
  from Suc.IH[OF hs' idle'] obtain h' where
    r: "getHosts n c (advance c h) =
       Some (Inr (map (\<lambda>k. hs ! unat ((?nx + 1 + 1 + of_nat k) mod ?l)) [0..<n], h'))"
    by (auto simp: advance_fields)
  have "map (\<lambda>k. hs ! unat ((?nx + 1 + of_nat k) mod ?l)) [0..<Suc n] =
      hs ! unat ((?nx + 1 + of_nat 0) mod ?l)
        # map (\<lambda>k. hs ! unat ((?nx + 1 + of_nat (Suc k)) mod ?l)) [0..<n]"
    by (rule map_upt_Suc)
  also have "(\<lambda>k. hs ! unat ((?nx + 1 + of_nat (Suc k)) mod ?l)) =
             (\<lambda>k. hs ! unat ((?nx + 1 + 1 + of_nat k) mod ?l))"
    by (simp add: add.assoc add.left_commute add.commute)
  finally have m: "map (\<lambda>k. hs ! unat ((?nx + 1 + of_nat k) mod ?l)) [0..<Suc n] =
      hs ! unat ((?nx + 1) mod ?l) # map (\<lambda>k. hs ! unat ((?nx + 1 + 1 + of_nat k) mod ?l)) [0..<n]"
    by simp
  show ?case
    unfolding m by (simp add: g r del: upt_Suc)
qed

lemma cursor_index:
  fixes a :: u32
  assumes L0: "0 < L" and lt: "L < 2 ^ 32" and k: "k < L"
    and nowrap: "unat a + L \<le> 2 ^ 32 \<or> L dvd 2 ^ 32"
  shows "unat ((a + of_nat k) mod (of_nat L :: u32)) = (unat a + k) mod L"
proof -
  have uL: "unat (of_nat L :: u32) = L" using lt by (simp add: unat_of_nat)
  have uk: "unat (of_nat k :: u32) = k" using lt k by (simp add: unat_of_nat)
  have "unat (a + of_nat k) mod L = (unat a + k) mod L"
    using nowrap
  proof
    assume "unat a + L \<le> 2 ^ 32"
    with k have "unat a + unat (of_nat k :: u32) < 2 ^ LENGTH(32)" by (simp add: uk)
    then have "unat (a + of_nat k) = unat a + unat (of_nat k :: u32)"
      by (simp only: unat_add_lem)
    then show ?thesis by (simp add: uk)
  next
    assume d: "L dvd 2 ^ 32"
    have "unat (a + of_nat k) = (unat a + k) mod 2 ^ 32"
      by (simp add: unat_word_ariths uk)
    then show ?thesis using d by (simp add: mod_mod_cancel)
  qed
  then show ?thesis by (simp add: unat_mod uL)
qed

lemma idle_heap_fields:
  "hosts (cluster_at (idle_heap cur hs) c) = hs"
  "nextIdx (cluster_at (idle_heap cur hs) c) = cur"
  "load (idle_heap cur hs) r = 0"
  by (simp_all add: idle_heap_def example_heap_with_def load_def runningQueries_def)

text \<open>
  C6, as stated, fails: with three idle nodes and the cursor at \<open>0xFFFFFFFE\<close> the cursor
  wraps around between the first and the second call, both start at index 0, and three calls
  return the first node twice.
\<close>

theorem getHost_repeats_at_wrap:
  "selected_nodes 3 0 (idle_heap 0xFFFFFFFE [1, 2, 3]) = Some [1, 1, 2]
   \<and> \<not> distinct [1 :: ref, 1, 2]"
proof -
  let ?h = "idle_heap 0xFFFFFFFE [1, 2, 3]"
  have ne: "[1, 2, 3] \<noteq> ([] :: ref list)" by simp
  have lt: "length [1 :: ref, 2, 3] < 2 ^ 32" by simp
  have idle: "\<forall>r\<in>set [1, 2, 3]. load ?h r = 0" by (simp add: idle_heap_fields)
  from getHosts_idle[OF ne lt idle_heap_fields(1) idle, where n = 3 and c = 0] obtain h' where
    "getHosts 3 0 ?h = Some (Inr (map (\<lambda>k. [1, 2, 3] ! unat ((nextIdx (cluster_at ?h 0) + 1 + of_nat k)
        mod (of_nat (length [1 :: ref, 2, 3]) :: u32))) [0..<3], h'))"
    by blast
  moreover have "map (\<lambda>k. [1 :: ref, 2, 3] ! unat ((nextIdx (cluster_at ?h 0) + 1 + of_nat k)
        mod (of_nat (length [1 :: ref, 2, 3]) :: u32))) [0..<3] = [1, 1, 2]"
    unfolding idle_heap_fields by (simp add: upt_rec)
  ultimately have "selected_nodes 3 0 ?h = Some [1, 1, 2]"
    by (simp add: selected_nodes_def)
  then show ?thesis by simp
qed

text \<open>
  C6, amended. For a cluster of N different nodes (N from 1 to \<open>2^32 - 1\<close>), all idle: if
  the cursor does not wrap around after the first of the N calls, or N divides \<open>2^32\<close>, then
  N successive calls of \<open>getHost\<close> return the nodes in rotation order starting at the
  cursor, N pairwise different nodes, each node of the cluster once.
\<close>

theorem getHost_round_robin:
  assumes hs: "hosts (cluster_at h c) = hs" and ne: "hs \<noteq> []" and lt: "length hs < 2 ^ 32"
    and dist: "distinct hs"
    and idle: "\<forall>r\<in>set hs. runningQueries (host_at h r) = 0"
    and nowrap: "unat (nextIdx (cluster_at h c) + 1) + length hs \<le> 2 ^ 32 \<or> length hs dvd 2 ^ 32"
  shows "\<exists>h'. getHosts (length hs) c h = Some (Inr (rotate (unat (nextIdx (cluster_at h c) + 1)) hs, h'))
       \<and> distinct (rotate (unat (nextIdx (cluster_at h c) + 1)) hs)
       \<and> set (rotate (unat (nextIdx (cluster_at h c) + 1)) hs) = set hs"
proof -
  let ?a = "nextIdx (cluster_at h c) + 1"
  let ?L = "length hs"
  have L0: "0 < ?L" using ne by simp
  have idle': "\<forall>r\<in>set hs. load h r = 0" using idle by (simp add: load_def)
  from getHosts_idle[OF ne lt hs idle', of ?L] obtain h' where
    g: "getHosts ?L c h = Some (Inr (map (\<lambda>k. hs ! unat ((?a + of_nat k) mod (of_nat ?L :: u32))) [0..<?L], h'))"
    by blast
  have "map (\<lambda>k. hs ! unat ((?a + of_nat k) mod (of_nat ?L :: u32))) [0..<?L] =
        map (\<lambda>k. hs ! ((unat ?a + k) mod ?L)) [0..<?L]"
  proof (rule map_cong[OF refl])
    fix k assume "k \<in> set [0..<?L]"
    then have k: "k < ?L" by simp
    show "hs ! unat ((?a + of_nat k) mod (of_nat ?L :: u32)) = hs ! ((unat ?a + k) mod ?L)"
      by (simp only: cursor_index[OF L0 lt k nowrap])
  qed
  also have "\<dots> = rotate (unat ?a) hs" by (simp only: rotate_as_map)
  finally have m: "map (\<lambda>k. hs ! unat ((?a + of_nat k) mod (of_nat ?L :: u32))) [0..<?L] =
      rotate (unat ?a) hs" .
  from g m dist show ?thesis by simp
qed

text \<open>An instance on an example state.\<close>

theorem getHost_round_robin_witness:
  "\<exists>h'. getHosts 3 0 (idle_heap 4 [1, 2, 3]) = Some (Inr ([3, 1, 2], h')) \<and> distinct [3 :: ref, 1, 2]"
proof -
  let ?h = "idle_heap 4 [1, 2, 3]"
  have hs: "hosts (cluster_at ?h 0) = [1, 2, 3]" by (rule idle_heap_fields)
  have nx: "nextIdx (cluster_at ?h 0) = 4" by (rule idle_heap_fields)
  have ne: "[1, 2, 3] \<noteq> ([] :: ref list)" by simp
  have lt: "length [1 :: ref, 2, 3] < 2 ^ 32" by simp
  have dist: "distinct [1 :: ref, 2, 3]" by simp
  have idle: "\<forall>r\<in>set [1, 2, 3]. runningQueries (host_at ?h r) = 0"
    using idle_heap_fields(3)[of 4 "[1, 2, 3]"] by (simp add: load_def)
  have u: "unat (nextIdx (cluster_at ?h 0) + 1) = 5" unfolding nx by simp
  have nowrap: "unat (nextIdx (cluster_at ?h 0) + 1) + length [1 :: ref, 2, 3] \<le> 2 ^ 32
      \<or> length [1 :: ref, 2, 3] dvd 2 ^ 32"
    unfolding u by simp
  have r: "rotate 5 [1 :: ref, 2, 3] = [3, 1, 2]"
    unfolding rotate_as_map by (simp add: upt_rec)
  have l3: "length [1 :: ref, 2, 3] = 3" by simp
  from getHost_round_robin[OF hs ne lt dist idle nowrap] show ?thesis
    unfolding u r l3 by simp
qed

section \<open>killQueries\<close>

lemma kill_loop_Cons:
  "kill_loop E h q u p (r # rs) sent =
     (case node_outcome E q u p (addr (host_at h r)) sent of
        Some e \<Rightarrow> (Some e, if newRequest_error E ''POST'' (addr (host_at h r)) = None
                            then sent @ [kill_request q u p (addr (host_at h r))] else sent)
      | None \<Rightarrow> kill_loop E h q u p rs (sent @ [kill_request q u p (addr (host_at h r))]))"
  by (simp add: node_outcome_def NewRequest_def setAuth_def kill_request_def Let_def
      split: option.splits sum.splits)

lemma node_outcome_addr:
  "node_outcome E q u p a sent = Some e \<Longrightarrow> kill_error_addr e = a"
  by (auto simp: node_outcome_def split: option.splits sum.splits if_splits)

lemma kill_loop_first_failure:
  "k < length rs \<Longrightarrow>
   node_outcome E q u p (map (\<lambda>r. addr (host_at h r)) rs ! k)
     (sent @ map (kill_request q u p) (take k (map (\<lambda>r. addr (host_at h r)) rs))) = Some e \<Longrightarrow>
   \<forall>j<k. node_outcome E q u p (map (\<lambda>r. addr (host_at h r)) rs ! j)
     (sent @ map (kill_request q u p) (take j (map (\<lambda>r. addr (host_at h r)) rs))) = None \<Longrightarrow>
   kill_loop E h q u p rs sent =
     (Some e, sent @ map (kill_request q u p)
        (take (if newRequest_error E ''POST'' (map (\<lambda>r. addr (host_at h r)) rs ! k) = None
               then Suc k else k) (map (\<lambda>r. addr (host_at h r)) rs)))"
proof (induction rs arbitrary: k sent)
  case Nil
  then show ?case by simp
next
  case (Cons r rs)
  let ?A = "\<lambda>r. addr (host_at h r)"
  show ?case
  proof (cases k)
    case 0
    with Cons.prems(2) have "node_outcome E q u p (?A r) sent = Some e" by simp
    then show ?thesis by (simp add: kill_loop_Cons 0 del: kill_loop.simps)
  next
    case (Suc k')
    from Cons.prems(3) Suc have h0: "node_outcome E q u p (?A r) sent = None"
      by (drule_tac x = 0 in spec) simp
    from Cons.prems(1) Suc have k': "k' < length rs" by simp
    have f: "node_outcome E q u p (map ?A rs ! k')
        ((sent @ [kill_request q u p (?A r)]) @ map (kill_request q u p) (take k' (map ?A rs))) = Some e"
      using Cons.prems(2) Suc by simp
    have g: "\<forall>j<k'. node_outcome E q u p (map ?A rs ! j)
        ((sent @ [kill_request q u p (?A r)]) @ map (kill_request q u p) (take j (map ?A rs))) = None"
    proof (intro allI impI)
      fix j assume "j < k'"
      then have "Suc j < k" using Suc by simp
      with Cons.prems(3) have "node_outcome E q u p (map ?A (r # rs) ! Suc j)
         (sent @ map (kill_request q u p) (take (Suc j) (map ?A (r # rs)))) = None" by blast
      then show "node_outcome E q u p (map ?A rs ! j)
        ((sent @ [kill_request q u p (?A r)]) @ map (kill_request q u p) (take j (map ?A rs))) = None"
        by simp
    qed
    from Cons.IH[OF k' f g] show ?thesis
      by (simp add: kill_loop_Cons h0 Suc del: kill_loop.simps)
  qed
qed



lemma killQueries_eq:
  assumes "killQueryUserName (cluster_at h c) \<noteq> []"
  shows "killQueries E c ua elapsed h sent =
     kill_loop E h (kill_statement E ua elapsed) (killQueryUserName (cluster_at h c))
       (killQueryUserPassword (cluster_at h c)) (hosts (cluster_at h c)) sent"
  using assms by (simp add: killQueries_def kill_statement_def Let_def)

lemma kill_heap_fields:
  "killQueryUserName (cluster_at (kill_heap a) c) = a"
  "killQueryUserPassword (cluster_at (kill_heap a) c) = ''pw''"
  "node_addrs (kill_heap a) c = [''http://node1'', ''http://node2'', ''http://node3'']"
  by (simp_all add: kill_heap_def node_addrs_def digit_char_def)

text \<open>
  C7. With an administrative user configured, let node \<open>k\<close> be the first node, in cluster
  order, whose exchange fails (request not constructed, transport error or a status other
  than 200), each exchange seeing the requests sent to the nodes before it. Then
  \<open>killQueries\<close> returns exactly that node's error, and the requests it has sent are those
  to the first \<open>n\<close> nodes in cluster order, where \<open>n = k\<close> if the request to node \<open>k\<close> could
  not be constructed and \<open>n = k + 1\<close> otherwise: no node after \<open>k\<close> is attempted.
\<close>

theorem killQueries_first_failure_aborts:
  assumes "killQueryUserName (cluster_at h c) \<noteq> []"
    and "q = kill_statement E ua elapsed"
    and "u = killQueryUserName (cluster_at h c)"
    and "p = killQueryUserPassword (cluster_at h c)"
    and "k < length (node_addrs h c)"
    and "node_outcome E q u p (node_addrs h c ! k)
           (sent @ map (kill_request q u p) (take k (node_addrs h c))) = Some e"
    and "\<forall>j<k. node_outcome E q u p (node_addrs h c ! j)
           (sent @ map (kill_request q u p) (take j (node_addrs h c))) = None"
  shows "\<exists>n. killQueries E c ua elapsed h sent =
              (Some e, sent @ map (kill_request q u p) (take n (node_addrs h c)))
           \<and> k \<le> n \<and> n \<le> Suc k
           \<and> (n = k \<longleftrightarrow> newRequest_error E ''POST'' (node_addrs h c ! k) \<noteq> None)
           \<and> kill_error_addr e = node_addrs h c ! k"
proof -
  let ?rs = "hosts (cluster_at h c)"
  let ?n = "if newRequest_error E ''POST'' (node_addrs h c ! k) = None then Suc k else k"
  have k: "k < length ?rs" using assms(5) by (simp add: node_addrs_def)
  have "kill_loop E h q u p ?rs sent =
      (Some e, sent @ map (kill_request q u p) (take ?n (node_addrs h c)))"
    using kill_loop_first_failure[OF k, of E q u p h sent e] assms(6) assms(7)
    unfolding node_addrs_def by blast
  then have "killQueries E c ua elapsed h sent =
      (Some e, sent @ map (kill_request q u p) (take ?n (node_addrs h c)))"
    by (simp only: killQueries_eq[OF assms(1)] assms(2) assms(3) assms(4))
  moreover have "k \<le> ?n \<and> ?n \<le> Suc k
      \<and> (?n = k \<longleftrightarrow> newRequest_error E ''POST'' (node_addrs h c ! k) \<noteq> None)" by simp
  moreover have "kill_error_addr e = node_addrs h c ! k"
    using node_outcome_addr[OF assms(6)] .
  ultimately show ?thesis by blast
qed

text \<open>An instance on an example state.\<close>

theorem killQueries_first_failure_aborts_witness:
  "fst (killQueries example_env 0 ''tag'' (Finite 51 (- 2)) (kill_heap ''admin'') []) =
      Some (StatusError (kill_statement example_env ''tag'' (Finite 51 (- 2))) ''http://node2'' 500 ''down'')
   \<and> map req_url (snd (killQueries example_env 0 ''tag'' (Finite 51 (- 2)) (kill_heap ''admin'') []))
        = [''http://node1'', ''http://node2'']"
proof -
  let ?h = "kill_heap ''admin''"
  let ?q = "kill_statement example_env ''tag'' (Finite 51 (- 2))"
  let ?e = "StatusError ?q ''http://node2'' 500 ''down''"
  have a1: "killQueryUserName (cluster_at ?h 0) \<noteq> []" by (simp add: kill_heap_fields)
  have a3: "''admin'' = killQueryUserName (cluster_at ?h 0)" by (simp add: kill_heap_fields)
  have a4: "''pw'' = killQueryUserPassword (cluster_at ?h 0)" by (simp add: kill_heap_fields)
  have a5: "1 < length (node_addrs ?h 0)" by (simp add: kill_heap_fields)
  have a6: "node_outcome example_env ?q ''admin'' ''pw'' (node_addrs ?h 0 ! 1)
           ([] @ map (kill_request ?q ''admin'' ''pw'') (take 1 (node_addrs ?h 0))) = Some ?e"
    by (simp add: kill_heap_fields node_outcome_def example_env_def kill_request_def)
  have a7: "\<forall>j<1. node_outcome example_env ?q ''admin'' ''pw'' (node_addrs ?h 0 ! j)
           ([] @ map (kill_request ?q ''admin'' ''pw'') (take j (node_addrs ?h 0))) = None"
    by (simp add: kill_heap_fields node_outcome_def example_env_def kill_request_def)
  from killQueries_first_failure_aborts[OF a1 refl a3 a4 a5 a6 a7] obtain n where
    r: "killQueries example_env 0 ''tag'' (Finite 51 (- 2)) ?h [] =
         (Some ?e, [] @ map (kill_request ?q ''admin'' ''pw'') (take n (node_addrs ?h 0)))"
    and n: "n = 1 \<longleftrightarrow> newRequest_error example_env ''POST'' (node_addrs ?h 0 ! 1) \<noteq> None"
      "1 \<le> n" "n \<le> Suc 1"
    by blast
  from n have "n = 2" by (simp add: example_env_def)
  with r show ?thesis
    by (simp add: kill_heap_fields kill_request_def)
qed

text \<open>
  C8. When the name of the administrative user is empty, \<open>killQueries\<close> returns no error
  and sends no request.
\<close>

theorem killQueries_without_credential:
  assumes "killQueryUserName (cluster_at h c) = []"
  shows "killQueries E c ua elapsed h sent = (None, sent)"
  using assms by (simp add: killQueries_def)

text \<open>An instance on an example state.\<close>

theorem killQueries_without_credential_witness:
  "killQueryUserName (cluster_at (kill_heap []) 0) = []
   \<and> killQueries example_env 0 ''tag'' (Finite 51 (- 2)) (kill_heap []) [] = (None, [])"
proof -
  have a: "killQueryUserName (cluster_at (kill_heap []) 0) = []" by (simp add: kill_heap_fields)
  from killQueries_without_credential[OF a] a show ?thesis by simp
qed










end
